theory Spec2Isabelle
  imports Main "HOL-Library.AList" "HOL-Library.Multiset"
begin

section \<open>The server's entry point (cmd/server/main.go)\<close>

text \<open>
  The program is one Go file: \<^verbatim>\<open>main\<close> parses flags, wires the cache, the rule
  engine and the updater together, and either runs one forced update (dry run) or
  starts two goroutines (signal handler, update loop) and serves HTTP. Everything
  \<^verbatim>\<open>main\<close> calls outside this file (the cache, \<^verbatim>\<open>triage\<close>, the updater, the
  operating system) is taken as a parameter: the record \<open>world\<close> holds what each of
  these calls returns in one run. What \<^verbatim>\<open>main\<close> itself does is recorded as a list
  of events in program order, together with the way the process ends.
\<close>

subsection \<open>Values\<close>

text \<open>A Go \<^verbatim>\<open>error\<close> is a message; \<open>None\<close> of \<open>error option\<close> is \<^verbatim>\<open>nil\<close>.\<close>

type_synonym error = string

text \<open>The two signals of \<^verbatim>\<open>signal.Notify(sigc, os.Interrupt, syscall.SIGTERM)\<close>;
  \<^verbatim>\<open>os.Interrupt\<close> is \<^verbatim>\<open>SIGINT\<close>.\<close>

datatype signal = SIGINT | SIGTERM

text \<open>The threads of the process: \<^verbatim>\<open>main\<close> and the two goroutines it starts
  (lines 139-147 and 149-153).\<close>

datatype thread = MainThread | SignalHandler | LoopRunner

text \<open>The package-level flag variables (lines 39-56), after \<^verbatim>\<open>flag.Parse\<close>. Durations
  are nanoseconds.\<close>

record flags =
  configPath :: string
  initCachePath :: string
  reposOverride :: string
  githubTokenFile :: string
  siteDir :: string
  thirdPartyDir :: string
  dryRun :: bool
  port :: int
  siteName :: string
  maxRefresh :: int
  minRefresh :: int
  memberRefresh :: int

text \<open>\<^verbatim>\<open>triage.Rule\<close>, with the one field this file reads.\<close>

record Rule =
  Repos :: "string list"

text \<open>
  What the calls that leave this file return in one run. \<open>MustReadToken\<close> returns
  the token, or ends the process itself with a status (\<open>Inl\<close>). \<open>Save\<close> is the
  result of the start-up call of line 115. \<open>map_rank\<close> stands for the order in which
  the Go runtime enumerates a map, which the language leaves open: keys come out
  by ascending rank.
\<close>

record world =
  environ :: "string \<rightharpoonup> string"
  os_Stat :: "string \<Rightarrow> error option"
  os_Getwd :: "error + string"
  os_Open :: "string \<Rightarrow> error option"
  MustReadToken :: "string \<Rightarrow> string \<Rightarrow> int + string"
  DefaultDiskPath :: "string \<Rightarrow> string \<Rightarrow> string"
  Initialize :: "string \<Rightarrow> error option"
  Load :: "error option"
  ListRules :: "error + Rule list"
  Save :: "error option"
  RunOnce :: "bool \<Rightarrow> error option"
  map_rank :: "string \<Rightarrow> nat"

text \<open>
  The effects of \<^verbatim>\<open>main.go\<close>'s own statements. A log call is named by its format
  string. \<open>EExit\<close> is \<^verbatim>\<open>klog.Exitf\<close>, which logs and then calls \<^verbatim>\<open>os.Exit(1)\<close>.
\<close>

datatype event =
    EInfo string
  | EError string
  | EExit string
  | EMustReadToken string string
  | EOpen string
  | EInitialize string
  | ETriageNew "string list" int
  | ELoad string
  | EListRules
  | ESave
  | EUpdaterNew int int
  | ERunOnce bool
  | ENotify "signal list"
  | EGo thread
  | ESiteNew string string
  | EHandle string
  | EPrintf string
  | EListenAndServe string

text \<open>How a process ends: by \<^verbatim>\<open>os.Exit\<close> with a status, or by an uncaught
  \<^verbatim>\<open>panic\<close>.\<close>

datatype ending = Exited int | Panicked error

subsection \<open>Library functions of Go used by the file\<close>

text \<open>
  \<^verbatim>\<open>strings.Split(s, sep)\<close> for a one-byte separator: cut at the first separator
  and go on with the rest; a string without separator is returned whole, so the
  result is never empty.
\<close>

function strings_Split :: "string \<Rightarrow> char \<Rightarrow> string list" where
  "strings_Split s sep =
     (case dropWhile (\<lambda>c. c \<noteq> sep) s of
        [] \<Rightarrow> [s]
      | _ # rest \<Rightarrow> takeWhile (\<lambda>c. c \<noteq> sep) s # strings_Split rest sep)"
  by pat_completeness auto
termination
proof (relation "measure (\<lambda>(s, sep). length s)")
  show "wf (measure (\<lambda>(s, sep). length s))" by simp
next
  fix s :: string and sep x rest
  assume "dropWhile (\<lambda>c. c \<noteq> sep) s = x # rest"
  then have "length rest < length (dropWhile (\<lambda>c. c \<noteq> sep) s)" by simp
  also have "\<dots> \<le> length s" by (rule length_dropWhile_le)
  finally show "((rest, sep), (s, sep)) \<in> measure (\<lambda>(s, sep). length s)" by simp
qed

declare strings_Split.simps [simp del]

text \<open>\<^verbatim>\<open>strings.Join(elems, sep)\<close>.\<close>

fun strings_Join :: "string list \<Rightarrow> string \<Rightarrow> string" where
  "strings_Join [] sep = []"
| "strings_Join [x] sep = x"
| "strings_Join (x # y # ys) sep = x @ sep @ strings_Join (y # ys) sep"

text \<open>\<^verbatim>\<open>filepath.Base(path)\<close> on Unix: the last element of the path, trailing
  slashes removed first; \<^verbatim>\<open>"."\<close> for the empty path, \<^verbatim>\<open>"/"\<close> for slashes only.\<close>

definition filepath_Base :: "string \<Rightarrow> string" where
  "filepath_Base path =
     (if path = [] then ''.''
      else let p = rev (dropWhile (\<lambda>c. c = CHR ''/'') (rev path));
               b = rev (takeWhile (\<lambda>c. c \<noteq> CHR ''/'') (rev p))
           in if b = [] then ''/'' else b)"

text \<open>\<^verbatim>\<open>os.Getenv(key)\<close>: the value of the variable, empty when it is not set.\<close>

definition os_Getenv :: "world \<Rightarrow> string \<Rightarrow> string" where
  "os_Getenv w key = (case environ w key of None \<Rightarrow> [] | Some v \<Rightarrow> v)"

text \<open>The verb \<^verbatim>\<open>%d\<close> of \<^verbatim>\<open>fmt.Sprintf\<close> on an \<^verbatim>\<open>int\<close>: decimal digits, a minus
  sign for a negative number.\<close>

definition digit_char :: "nat \<Rightarrow> char" where
  "digit_char d = ''0123456789'' ! d"

function decimal :: "nat \<Rightarrow> string" where
  "decimal n = (if n < 10 then [digit_char n] else decimal (n div 10) @ [digit_char (n mod 10)])"
  by pat_completeness auto
termination
  by (relation "measure (\<lambda>n. n)") auto

declare decimal.simps [simp del]

definition Sprintf_d :: "int \<Rightarrow> string" where
  "Sprintf_d i = (if i < 0 then CHR ''-'' # decimal (nat (- i)) else decimal (nat i))"

subsection \<open>findPath (lines 197-217)\<close>

text \<open>The function logs on one path, so it returns its events with its result.\<close>

definition findPath :: "world \<Rightarrow> string \<Rightarrow> event list \<times> string" where
  "findPath w p =
     (if os_Stat w p = None then ([], p)
      else case os_Getwd w of
             Inl err \<Rightarrow> ([EError ''crazy: %v''], p)
           | Inr wd \<Rightarrow>
               if filepath_Base wd = ''server''
               then (let tp = ''../../'' @ p
                     in if os_Stat w tp = None then ([], tp) else ([], p))
               else ([], p))"

subsection \<open>calculateSiteName (lines 180-195)\<close>

text \<open>
  The map \<^verbatim>\<open>seen\<close> is an association list; \<^verbatim>\<open>seen[k] = true\<close> is
  \<open>AList.update k True\<close>. The index expression \<^verbatim>\<open>parts[len(parts)-1]\<close> panics in
  Go when \<^verbatim>\<open>parts\<close> is empty: \<open>None\<close> is that panic.
\<close>

definition last_part :: "string list \<Rightarrow> string option" where
  "last_part parts = (if parts = [] then None else Some (parts ! (length parts - 1)))"

text \<open>The inner loop, over the repositories of one rule.\<close>

fun range_Repos :: "(string \<times> bool) list \<Rightarrow> string list \<Rightarrow> (string \<times> bool) list option" where
  "range_Repos seen [] = Some seen"
| "range_Repos seen (r # rs) =
     (case last_part (strings_Split r CHR ''/'') of
        None \<Rightarrow> None
      | Some n \<Rightarrow> range_Repos (AList.update n True seen) rs)"

text \<open>The outer loop, over the rules.\<close>

fun range_ts :: "(string \<times> bool) list \<Rightarrow> Rule list \<Rightarrow> (string \<times> bool) list option" where
  "range_ts seen [] = Some seen"
| "range_ts seen (t # ts) =
     (case range_Repos seen (Repos t) of
        None \<Rightarrow> None
      | Some seen' \<Rightarrow> range_ts seen' ts)"

text \<open>The second loop, \<^verbatim>\<open>for n := range seen\<close>: every key once, in the order the
  runtime picks.\<close>

definition range_seen :: "(string \<Rightarrow> nat) \<Rightarrow> (string \<times> bool) list \<Rightarrow> string list" where
  "range_seen rank seen = sort_key rank (map fst seen)"

definition calculateSiteName :: "(string \<Rightarrow> nat) \<Rightarrow> Rule list \<Rightarrow> string option" where
  "calculateSiteName rank ts =
     (case range_ts [] ts of
        None \<Rightarrow> None
      | Some seen \<Rightarrow> Some (strings_Join (range_seen rank seen) '' + ''))"

subsection \<open>The local variables of main\<close>

text \<open>\<^verbatim>\<open>cachePath\<close> (lines 77-80).\<close>

definition cachePath :: "flags \<Rightarrow> world \<Rightarrow> string" where
  "cachePath f w =
     (if initCachePath f = [] then DefaultDiskPath w (configPath f) (reposOverride f)
      else initCachePath f)"

text \<open>\<^verbatim>\<open>cfg.Repos\<close> (lines 88-96): the literal of line 88 leaves the field \<^verbatim>\<open>nil\<close>,
  the empty list.\<close>

definition cfg_Repos :: "flags \<Rightarrow> string list" where
  "cfg_Repos f =
     (if reposOverride f \<noteq> [] then strings_Split (reposOverride f) CHR '','' else [])"

text \<open>\<^verbatim>\<open>sn\<close> (lines 109-112); \<open>None\<close> when \<^verbatim>\<open>calculateSiteName\<close> panics.\<close>

definition sn :: "flags \<Rightarrow> world \<Rightarrow> Rule list \<Rightarrow> string option" where
  "sn f w ts =
     (if siteName f = [] then calculateSiteName (map_rank w) ts else Some (siteName f))"

text \<open>\<^verbatim>\<open>listenAddr\<close> (lines 168-171).\<close>

definition listenAddr :: "flags \<Rightarrow> world \<Rightarrow> string" where
  "listenAddr f w =
     (let a = '':'' @ os_Getenv w ''PORT''
      in if a = '':'' then '':'' @ Sprintf_d (port f) else a)"

subsection \<open>main up to the start of the goroutines (lines 58-153)\<close>

text \<open>
  The result is the list of events in program order and either the way the process
  ended (\<open>Inl\<close>) or, when both goroutines have been started, the site name the
  server will show (\<open>Inr\<close>).
\<close>

definition main_startup :: "flags \<Rightarrow> world \<Rightarrow> event list \<times> (ending + string)" where
  "main_startup f w =
   (if configPath f = [] then ([EExit ''--config is required''], Inl (Exited 1))
    else
    let t0 = [EMustReadToken (githubTokenFile f) ''GITHUB_TOKEN''] in
    case MustReadToken w (githubTokenFile f) ''GITHUB_TOKEN'' of
      Inl n \<Rightarrow> (t0, Inl (Exited n))
    | Inr token \<Rightarrow>
    let (fe, path) = findPath w (configPath f);
        t1 = t0 @ fe @ [EOpen path] in
    case os_Open w path of
      Some err \<Rightarrow> (t1 @ [EExit ''open %s: %v''], Inl (Exited 1))
    | None \<Rightarrow>
    let t2 = t1 @ [EInfo ''cache path: %s'', EInitialize (cachePath f w)] in
    case Initialize w (cachePath f w) of
      Some err \<Rightarrow> (t2 @ [EExit ''initcache load to %s: %v''], Inl (Exited 1))
    | None \<Rightarrow>
    let t3 = t2 @ [ETriageNew (cfg_Repos f) (memberRefresh f), ELoad path] in
    case Load w of
      Some err \<Rightarrow> (t3 @ [EExit ''load from %s: %v''], Inl (Exited 1))
    | None \<Rightarrow>
    let t4 = t3 @ [EListRules] in
    case ListRules w of
      Inl err \<Rightarrow> (t4 @ [EExit ''list rules: %v''], Inl (Exited 1))
    | Inr ts \<Rightarrow>
    let t5 = t4 @ [EInfo ''Loaded %d rules''] in
    case sn f w ts of
      None \<Rightarrow> (t5, Inl (Panicked ''index out of range''))
    | Some name \<Rightarrow>
    let t6 = t5 @ [ESave] in
    case Save w of
      Some err \<Rightarrow> (t6 @ [EExit ''initcache save to %s: %v''], Inl (Exited 1))
    | None \<Rightarrow>
    let t7 = t6 @ [EUpdaterNew (minRefresh f) (maxRefresh f)] in
    if dryRun f then
      (let t8 = t7 @ [EInfo ''Updating ...'', ERunOnce True] in
       case RunOnce w True of
         Some err \<Rightarrow> (t8 @ [EExit ''run failed: %v''], Inl (Exited 1))
       | None \<Rightarrow> (t8, Inl (Exited 0)))
    else
      (t7 @ [EInfo ''Starting update loop: %+v'', ENotify [SIGINT, SIGTERM],
             EGo SignalHandler, EGo LoopRunner], Inr name))"

subsection \<open>Continuous mode (lines 137-177)\<close>

text \<open>
  From line 139 on three threads run side by side: \<^verbatim>\<open>main\<close>, which builds the site
  and blocks in \<^verbatim>\<open>http.ListenAndServe\<close>; the signal handler; and the goroutine that
  calls \<^verbatim>\<open>u.Loop\<close>. A state holds the events so far, each with the thread that
  performed it, the buffered channel \<^verbatim>\<open>sigc\<close> (capacity 1), where each thread
  stands, and, once the process has ended, which thread ended it and how.
\<close>

text \<open>The handler: blocked in \<^verbatim>\<open>range sigc\<close>; past line 141 with a signal; past the
  call of \<^verbatim>\<open>c.Save()\<close> of line 142 with its result.\<close>

datatype hloc = HRange | HCaught signal | HSaved "error option"

text \<open>The loop goroutine: inside \<^verbatim>\<open>u.Loop(ctx)\<close>; \<^verbatim>\<open>Loop\<close> has returned a result;
  past the \<^verbatim>\<open>if\<close> of lines 150-152 (with the result \<^verbatim>\<open>Loop\<close> had returned).\<close>

datatype lloc = LLoop | LReturned "error option" | LDone "error option"

text \<open>\<^verbatim>\<open>main\<close>: before line 155; blocked in \<^verbatim>\<open>ListenAndServe\<close> on an address.\<close>

datatype mloc = MSetup | MServe string

record cstate =
  events :: "(thread \<times> event) list"
  sigc :: "signal list"
  hpc :: hloc
  lpc :: lloc
  mpc :: mloc
  site :: string
  ended :: "(thread \<times> ending) option"

definition init_cstate :: "event list \<Rightarrow> string \<Rightarrow> cstate" where
  "init_cstate tr name =
     \<lparr>events = map (Pair MainThread) tr, sigc = [], hpc = HRange, lpc = LLoop,
      mpc = MSetup, site = name, ended = None\<rparr>"

text \<open>Lines 150-152, once \<^verbatim>\<open>Loop\<close> has returned \<open>err\<close>: the events of the goroutine
  and, if it ends the process, how.\<close>

definition loop_check :: "error option \<Rightarrow> event list \<times> ending option" where
  "loop_check err =
     (if err = None then ([EExit ''loop failed: %v''], Some (Exited 1)) else ([], None))"

text \<open>Lines 142-144, once \<^verbatim>\<open>c.Save()\<close> has returned \<open>err\<close>.\<close>

definition save_check :: "error option \<Rightarrow> event list" where
  "save_check err = (if err \<noteq> None then [EError ''save errro: %v''] else [])"

text \<open>Lines 155-174 of \<^verbatim>\<open>main\<close>, up to the call of \<^verbatim>\<open>ListenAndServe\<close>.\<close>

definition main_serve :: "flags \<Rightarrow> world \<Rightarrow> string \<Rightarrow> event list" where
  "main_serve f w name =
     (let (e1, base) = findPath w (siteDir f);
          (e2, tp) = findPath w (thirdPartyDir f);
          (e3, sd) = findPath w (siteDir f)
      in e1 @ [ESiteNew base name] @ e2 @ [EHandle ''/third_party/''] @ e3 @
         [EHandle ''/static/'', EHandle ''/s/'', EHandle ''/'',
          EPrintf ''*** teaparty is listening at %s ... ***'',
          EListenAndServe (listenAddr f w)])"

text \<open>
  One step of one thread. No thread moves once the process has ended.
  \<^item> \<open>deliver\<close>: the runtime puts an arriving signal into \<^verbatim>\<open>sigc\<close> when the buffer
    has room (it drops the signal otherwise).
  \<^item> \<open>h_range\<close>, \<open>h_save\<close>, \<open>h_exit\<close>: lines 140-141, 142, 142-145; \<^verbatim>\<open>c.Save()\<close>
    may return any result \<open>r\<close>.
  \<^item> \<open>l_return\<close>, \<open>l_check\<close>: \<^verbatim>\<open>u.Loop(ctx)\<close> returns some \<open>r\<close>; lines 150-152.
  \<^item> \<open>m_serve\<close>: lines 155-174. \<open>m_panic\<close>, \<open>m_return\<close>: \<^verbatim>\<open>ListenAndServe\<close>
    returns an error (line 176) or \<^verbatim>\<open>nil\<close> (\<^verbatim>\<open>main\<close> returns).
\<close>

inductive cstep :: "flags \<Rightarrow> world \<Rightarrow> cstate \<Rightarrow> cstate \<Rightarrow> bool" for f w where
  deliver:
    "ended s = None \<Longrightarrow> sigc s = [] \<Longrightarrow> cstep f w s (s\<lparr>sigc := [sg]\<rparr>)"
| h_range:
    "ended s = None \<Longrightarrow> hpc s = HRange \<Longrightarrow> sigc s = sg # q \<Longrightarrow>
     cstep f w s (s\<lparr>sigc := q, hpc := HCaught sg,
                    events := events s @ [(SignalHandler, EInfo ''signal caught: %v'')]\<rparr>)"
| h_save:
    "ended s = None \<Longrightarrow> hpc s = HCaught sg \<Longrightarrow>
     cstep f w s (s\<lparr>hpc := HSaved r, events := events s @ [(SignalHandler, ESave)]\<rparr>)"
| h_exit:
    "ended s = None \<Longrightarrow> hpc s = HSaved r \<Longrightarrow>
     cstep f w s (s\<lparr>events := events s @ map (Pair SignalHandler) (save_check r),
                    ended := Some (SignalHandler, Exited 0)\<rparr>)"
| l_return:
    "ended s = None \<Longrightarrow> lpc s = LLoop \<Longrightarrow> cstep f w s (s\<lparr>lpc := LReturned r\<rparr>)"
| l_check:
    "ended s = None \<Longrightarrow> lpc s = LReturned r \<Longrightarrow>
     cstep f w s (s\<lparr>lpc := LDone r,
                    events := events s @ map (Pair LoopRunner) (fst (loop_check r)),
                    ended := map_option (Pair LoopRunner) (snd (loop_check r))\<rparr>)"
| m_serve:
    "ended s = None \<Longrightarrow> mpc s = MSetup \<Longrightarrow>
     cstep f w s (s\<lparr>mpc := MServe (listenAddr f w),
                    events := events s @ map (Pair MainThread) (main_serve f w (site s))\<rparr>)"
| m_panic:
    "ended s = None \<Longrightarrow> mpc s = MServe a \<Longrightarrow>
     cstep f w s (s\<lparr>ended := Some (MainThread, Panicked err)\<rparr>)"
| m_return:
    "ended s = None \<Longrightarrow> mpc s = MServe a \<Longrightarrow>
     cstep f w s (s\<lparr>ended := Some (MainThread, Exited 0)\<rparr>)"

text \<open>The states of a run of the whole program that enters continuous mode.\<close>

inductive reachable :: "flags \<Rightarrow> world \<Rightarrow> cstate \<Rightarrow> bool" for f w where
  r_start: "main_startup f w = (tr, Inr name) \<Longrightarrow> reachable f w (init_cstate tr name)"
| r_step: "reachable f w s \<Longrightarrow> cstep f w s s' \<Longrightarrow> reachable f w s'"

text \<open>The events one thread has performed, in order.\<close>

definition events_of :: "thread \<Rightarrow> cstate \<Rightarrow> event list" where
  "events_of t s = map snd (filter (\<lambda>x. fst x = t) (events s))"

subsection \<open>Parts of the program outside this file\<close>

text \<open>
  Modelled from the spec: \<^verbatim>\<open>initcache.DefaultDiskPath\<close> is not among the sources.
  Section 4.2 asks for "a deterministic location derived from configuration
  identity (so distinct configurations or repository overrides never collide on
  the same cache file)": as a function of the configuration path and the override
  string, it maps different pairs to different paths.
\<close>

definition DefaultDiskPath_spec :: "(string \<Rightarrow> string \<Rightarrow> string) \<Rightarrow> bool" where
  "DefaultDiskPath_spec d = (\<forall>c r c' r'. d c r = d c' r' \<longrightarrow> c = c' \<and> r = r')"

text \<open>
  Modelled from the spec: the use \<^verbatim>\<open>triage\<close> makes of \<^verbatim>\<open>Config.Repos\<close> when it
  loads a rule is not among the sources. Section 6 describes "an override list of
  repositories that supersedes configuration-declared repositories": a rule gets
  the override list when there is one, its declared repositories otherwise.
\<close>

definition rule_repos :: "string list \<Rightarrow> string list \<Rightarrow> string list" where
  "rule_repos override declared = (if override = [] then declared else override)"

subsection \<open>A concrete run\<close>

text \<open>A cache path that meets \<open>DefaultDiskPath_spec\<close>: the length of the
  configuration path in unary, then both strings.\<close>

definition disk_path0 :: "string \<Rightarrow> string \<Rightarrow> string" where
  "disk_path0 c r = replicate (length c) CHR ''_'' @ ''/'' @ c @ r"


text \<open>Flags and a world in which every call succeeds, used to evaluate the model.\<close>

definition flags0 :: flags where
  "flags0 =
     \<lparr>configPath = ''config/kubernetes.yaml'', initCachePath = [], reposOverride = [],
      githubTokenFile = [], siteDir = ''site/'', thirdPartyDir = ''third_party/'',
      dryRun = False, port = 8080, siteName = [], maxRefresh = 3600000000000,
      minRefresh = 60000000000, memberRefresh = 86400000000000\<rparr>"

definition rules0 :: "Rule list" where
  "rules0 =
     [\<lparr>Repos = [''kubernetes/minikube'', ''kubernetes/kubernetes'']\<rparr>,
      \<lparr>Repos = [''GoogleContainerTools/skaffold'', ''kubernetes/minikube'']\<rparr>]"

definition world0 :: world where
  "world0 =
     \<lparr>environ = Map.empty, os_Stat = (\<lambda>p. None), os_Getwd = Inr ''/app'',
      os_Open = (\<lambda>p. None), MustReadToken = (\<lambda>p e. Inr ''0123456789abcdef''),
      DefaultDiskPath = disk_path0, Initialize = (\<lambda>p. None),
      Load = None, ListRules = Inr rules0, Save = None, RunOnce = (\<lambda>b. None),
      map_rank = length\<rparr>"

text \<open>The state in which this run enters continuous mode.\<close>

definition state0 :: cstate where
  "state0 = init_cstate (fst (main_startup flags0 world0)) ''minikube + skaffold + kubernetes''"

text \<open>A run in which a signal is caught and \<^verbatim>\<open>main\<close> then panics on an error of
  \<^verbatim>\<open>ListenAndServe\<close> (line 176) before the handler has called \<^verbatim>\<open>c.Save()\<close>: the
  states after the delivery of \<^verbatim>\<open>SIGTERM\<close>, after line 141, after line 174, and at
  the end.\<close>

definition panicked0 :: cstate where
  "panicked0 =
     (let s1 = state0\<lparr>sigc := [SIGTERM]\<rparr>;
          s2 = s1\<lparr>sigc := [], hpc := HCaught SIGTERM,
                  events := events s1 @ [(SignalHandler, EInfo ''signal caught: %v'')]\<rparr>;
          s3 = s2\<lparr>mpc := MServe (listenAddr flags0 world0),
                  events := events s2 @
                    map (Pair MainThread) (main_serve flags0 world0 (site s2))\<rparr>
      in s3\<lparr>ended := Some (MainThread, Panicked ''bind: address already in use'')\<rparr>)"

section \<open>Properties\<close>

subsection \<open>The library functions\<close>

text \<open>\<open>strings_Split\<close> returns at least one part, its parts hold no separator, and
  joining them with the separator gives the string back.\<close>

lemma Split_not_Nil: "strings_Split s c \<noteq> []"
  by (subst strings_Split.simps) (simp split: list.split)

lemma Split_no_sep: "p \<in> set (strings_Split s c) \<Longrightarrow> c \<notin> set p"
proof (induction s c arbitrary: p rule: strings_Split.induct)
  case (1 s sep)
  show ?case
  proof (cases "dropWhile (\<lambda>c. c \<noteq> sep) s")
    case Nil
    with "1.prems" have "p = s" by (subst (asm) strings_Split.simps) simp
    moreover from Nil have "sep \<notin> set s" by (auto simp: dropWhile_eq_Nil_conv)
    ultimately show ?thesis by simp
  next
    case (Cons x rest)
    with "1.prems" have "p = takeWhile (\<lambda>c. c \<noteq> sep) s \<or> p \<in> set (strings_Split rest sep)"
      by (subst (asm) strings_Split.simps) simp
    then show ?thesis
    proof
      assume "p = takeWhile (\<lambda>c. c \<noteq> sep) s"
      then show ?thesis by (auto dest: set_takeWhileD)
    next
      assume "p \<in> set (strings_Split rest sep)"
      with "1.IH" Cons show ?thesis by blast
    qed
  qed
qed

lemma Join_Cons: "ps \<noteq> [] \<Longrightarrow> strings_Join (p # ps) sep = p @ sep @ strings_Join ps sep"
  by (cases ps) simp_all

lemma Join_Split: "strings_Join (strings_Split s c) [c] = s"
proof (induction s c rule: strings_Split.induct)
  case (1 s sep)
  show ?case
  proof (cases "dropWhile (\<lambda>c. c \<noteq> sep) s")
    case Nil
    show ?thesis by (subst strings_Split.simps) (simp only: Nil list.case strings_Join.simps)
  next
    case (Cons x rest)
    have "\<not> hd (dropWhile (\<lambda>c. c \<noteq> sep) s) \<noteq> sep"
      by (rule hd_dropWhile) (simp only: Cons list.distinct not_False_eq_True)
    then have x: "x = sep" by (simp only: Cons list.sel not_not)
    have "strings_Split s sep = takeWhile (\<lambda>c. c \<noteq> sep) s # strings_Split rest sep"
      by (subst strings_Split.simps) (simp only: Cons list.case)
    then have "strings_Join (strings_Split s sep) [sep] =
            takeWhile (\<lambda>c. c \<noteq> sep) s @ [sep] @ strings_Join (strings_Split rest sep) [sep]"
      by (simp only: Join_Cons [OF Split_not_Nil])
    also have "\<dots> = takeWhile (\<lambda>c. c \<noteq> sep) s @ x # rest"
      by (simp only: "1.IH" [OF Cons] x append_Cons append_Nil)
    also have "\<dots> = s"
      by (simp only: Cons [symmetric] takeWhile_dropWhile_id)
    finally show ?thesis .
  qed
qed

lemma last_part_Split: "last_part (strings_Split r c) = Some (last (strings_Split r c))"
  by (simp add: last_part_def Split_not_Nil last_conv_nth)

subsection \<open>findPath\<close>

lemma findPath_events: "e \<in> set (fst (findPath w p)) \<Longrightarrow> e = EError ''crazy: %v''"
  by (simp add: findPath_def Let_def split: if_splits sum.splits)

lemma findPath_count [simp]:
  "e \<noteq> EError ''crazy: %v'' \<Longrightarrow> count_list (fst (findPath w p)) e = 0"
  using findPath_events [of e w p] by (simp add: count_list_0_iff) blast

lemma findPath_notin [simp]: "e \<noteq> EError ''crazy: %v'' \<Longrightarrow> e \<notin> set (fst (findPath w p))"
  using findPath_events [of e w p] by blast

subsection \<open>calculateSiteName\<close>

text \<open>Both loops run to their end (the index of line 186 is always in range); the
  keys of the map they build are distinct and are the last parts of the repositories.\<close>

lemma range_Repos_Some:
  "distinct (map fst seen) \<Longrightarrow>
   \<exists>seen'. range_Repos seen rs = Some seen' \<and> distinct (map fst seen') \<and>
     set (map fst seen') = set (map fst seen) \<union> (\<lambda>r. last (strings_Split r CHR ''/'')) ` set rs"
proof (induction rs arbitrary: seen)
  case Nil
  then show ?case by simp
next
  case (Cons r rs)
  let ?n = "last (strings_Split r CHR ''/'')"
  have d: "distinct (map fst (AList.update ?n True seen))"
    using Cons.prems by (rule distinct_update)
  from Cons.IH [OF d] obtain seen' where
    s: "range_Repos (AList.update ?n True seen) rs = Some seen'" and
    ds: "distinct (map fst seen')" and
    ks: "set (map fst seen') = set (map fst (AList.update ?n True seen)) \<union>
           (\<lambda>r. last (strings_Split r CHR ''/'')) ` set rs"
    by blast
  have "set (map fst (AList.update ?n True seen)) = insert ?n (set (map fst seen))"
    using dom_update [of ?n True seen] by simp
  with s ds ks show ?case by (simp add: last_part_Split)
qed

lemma range_ts_Some:
  "distinct (map fst seen) \<Longrightarrow>
   \<exists>seen'. range_ts seen ts = Some seen' \<and> distinct (map fst seen') \<and>
     set (map fst seen') =
       set (map fst seen) \<union> (\<Union>t\<in>set ts. (\<lambda>r. last (strings_Split r CHR ''/'')) ` set (Repos t))"
proof (induction ts arbitrary: seen)
  case Nil
  then show ?case by simp
next
  case (Cons t ts)
  from range_Repos_Some [OF Cons.prems, of "Repos t"] obtain s1 where
    r1: "range_Repos seen (Repos t) = Some s1" and d1: "distinct (map fst s1)" and
    k1: "set (map fst s1) =
           set (map fst seen) \<union> (\<lambda>r. last (strings_Split r CHR ''/'')) ` set (Repos t)"
    by blast
  from Cons.IH [OF d1] obtain s2 where
    r2: "range_ts s1 ts = Some s2" and d2: "distinct (map fst s2)" and
    k2: "set (map fst s2) =
       set (map fst s1) \<union> (\<Union>t\<in>set ts. (\<lambda>r. last (strings_Split r CHR ''/'')) ` set (Repos t))"
    by blast
  from r1 r2 d2 k1 k2 show ?case by (simp add: Un_assoc)
qed

lemma calculateSiteName_names:
  "\<exists>names. calculateSiteName rank ts = Some (strings_Join names '' + '') \<and> distinct names \<and>
     set names = (\<Union>t\<in>set ts. (\<lambda>r. last (strings_Split r CHR ''/'')) ` set (Repos t))"
proof -
  from range_ts_Some [of "[]" ts] obtain seen where
    r: "range_ts [] ts = Some seen" and d: "distinct (map fst seen)" and
    k: "set (map fst seen) =
          (\<Union>t\<in>set ts. (\<lambda>r. last (strings_Split r CHR ''/'')) ` set (Repos t))"
    by auto
  have "calculateSiteName rank ts = Some (strings_Join (range_seen rank seen) '' + '')"
    by (simp add: calculateSiteName_def r)
  moreover have "distinct (range_seen rank seen)" using d by (simp add: range_seen_def)
  moreover have "set (range_seen rank seen) = set (map fst seen)" by (simp add: range_seen_def)
  ultimately show ?thesis using k by blast
qed

lemma sn_not_None [simp]: "sn f w ts \<noteq> None"
  using calculateSiteName_names [of "map_rank w" ts] by (auto simp: sn_def)

text \<open>Ranks leave the order of enumeration open: every order of the keys is the
  order some ranking produces.\<close>

lemma rank_nth:
  "distinct names \<Longrightarrow> i < length names \<Longrightarrow>
   length (takeWhile (\<lambda>x. x \<noteq> names ! i) names) = i"
proof (induction names arbitrary: i)
  case Nil
  then show ?case by simp
next
  case (Cons x xs)
  show ?case
  proof (cases i)
    case 0
    then show ?thesis by simp
  next
    case (Suc j)
    with Cons.prems have j: "j < length xs" and d: "distinct xs" and x: "x \<notin> set xs"
      by simp_all
    from j x have "x \<noteq> xs ! j" by (metis nth_mem)
    with Cons.IH [OF d j] Suc show ?thesis by simp
  qed
qed

lemma rank_map:
  "distinct names \<Longrightarrow>
   map (\<lambda>k. length (takeWhile (\<lambda>x. x \<noteq> k) names)) names = [0..<length names]"
  by (rule nth_equalityI) (simp_all add: rank_nth)

lemma range_seen_any_order:
  assumes "distinct (map fst seen)" "mset names = mset (map fst seen)"
  shows "\<exists>rank. range_seen rank seen = names"
proof -
  let ?rank = "\<lambda>k. length (takeWhile (\<lambda>x. x \<noteq> k) names)"
  let ?ks = "map fst seen"
  have dn: "distinct names" using assms by (metis mset_eq_imp_distinct_iff)
  have m: "map ?rank names = [0..<length names]" using dn by (rule rank_map)
  have sets: "set (sort_key ?rank ?ks) = set names"
    using assms(2) by (metis mset_eq_setD set_sort)
  have "distinct (map ?rank names)" by (simp only: m distinct_upt)
  then have inj: "inj_on ?rank (set names)" by (simp add: distinct_map)
  have "sort_key ?rank ?ks = names"
  proof (rule map_sorted_distinct_set_unique [where f = ?rank])
    show "inj_on ?rank (set (sort_key ?rank ?ks) \<union> set names)" using inj sets by simp
    show "sorted (map ?rank (sort_key ?rank ?ks))" by simp
    show "distinct (map ?rank (sort_key ?rank ?ks))"
      using inj sets assms(1) by (simp add: distinct_map)
    show "sorted (map ?rank names)" by (simp only: m sorted_upt)
    show "distinct (map ?rank names)" by (simp only: m distinct_upt)
    show "set (sort_key ?rank ?ks) = set names" by (rule sets)
  qed
  then show ?thesis unfolding range_seen_def by blast
qed

subsection \<open>Continuous mode\<close>

text \<open>A continuous-mode state belongs to a run whose start-up went through; the site
  name never changes.\<close>

lemma reachable_startup: "reachable f w s \<Longrightarrow> \<exists>tr. main_startup f w = (tr, Inr (site s))"
proof (induction rule: reachable.induct)
  case (r_start tr name)
  then show ?case by (simp add: init_cstate_def)
next
  case (r_step s s')
  from r_step.hyps(2) have "site s' = site s" by (cases rule: cstep.cases) simp_all
  with r_step.IH show ?case by simp
qed

lemma reachable_serve:
  "reachable f w s \<Longrightarrow> mpc s = MServe a \<Longrightarrow>
     a = listenAddr f w \<and> (MainThread, EListenAndServe a) \<in> set (events s)"
proof (induction rule: reachable.induct)
  case (r_start tr name)
  then show ?case by (simp add: init_cstate_def)
next
  case (r_step s s')
  from r_step.hyps(2) r_step.IH r_step.prems show ?case
    by (cases rule: cstep.cases) (auto simp: main_serve_def split_beta Let_def)
qed

text \<open>The handler's own events tell where it stands, and it ends the process only
  from the point after the call of \<^verbatim>\<open>c.Save()\<close>.\<close>

lemma reachable_handler:
  "reachable f w s \<Longrightarrow>
     events_of SignalHandler s =
       (case hpc s of
          HRange \<Rightarrow> []
        | HCaught sg \<Rightarrow> [EInfo ''signal caught: %v'']
        | HSaved r \<Rightarrow> [EInfo ''signal caught: %v'', ESave] @
            (if ended s = Some (SignalHandler, Exited 0) then save_check r else [])) \<and>
     (\<forall>e. ended s = Some (SignalHandler, e) \<longrightarrow> e = Exited 0 \<and> (\<exists>r. hpc s = HSaved r))"
proof (induction rule: reachable.induct)
  case (r_start tr name)
  then show ?case by (simp add: init_cstate_def events_of_def filter_map comp_def)
next
  case (r_step s s')
  from r_step.hyps(2) r_step.IH show ?case
    by (cases rule: cstep.cases)
       (auto simp: events_of_def filter_map comp_def loop_check_def split: hloc.splits if_splits)
qed

text \<open>The loop goroutine ends the process only when \<^verbatim>\<open>Loop\<close> returned \<^verbatim>\<open>nil\<close>.\<close>

lemma reachable_loop:
  "reachable f w s \<Longrightarrow> ended s = Some (LoopRunner, e) \<Longrightarrow> e = Exited 1 \<and> lpc s = LDone None"
proof (induction rule: reachable.induct)
  case (r_start tr name)
  then show ?case by (simp add: init_cstate_def)
next
  case (r_step s s')
  from r_step.hyps(2) r_step.IH r_step.prems show ?case
    by (cases rule: cstep.cases) (auto simp: loop_check_def split: if_splits)
qed

subsection \<open>The concrete run, evaluated\<close>

lemma flags0_simps [simp]:
  "configPath flags0 = ''config/kubernetes.yaml''" "initCachePath flags0 = []"
  "reposOverride flags0 = []" "githubTokenFile flags0 = []" "siteDir flags0 = ''site/''"
  "thirdPartyDir flags0 = ''third_party/''" "dryRun flags0 = False" "port flags0 = 8080"
  "siteName flags0 = []" "maxRefresh flags0 = 3600000000000" "minRefresh flags0 = 60000000000"
  "memberRefresh flags0 = 86400000000000"
  by (simp_all add: flags0_def)

lemma world0_simps [simp]:
  "environ world0 = Map.empty" "os_Stat world0 = (\<lambda>p. None)" "os_Getwd world0 = Inr ''/app''"
  "os_Open world0 = (\<lambda>p. None)" "MustReadToken world0 = (\<lambda>p e. Inr ''0123456789abcdef'')"
  "DefaultDiskPath world0 = disk_path0" "Initialize world0 = (\<lambda>p. None)"
  "Load world0 = None" "ListRules world0 = Inr rules0" "Save world0 = None"
  "RunOnce world0 = (\<lambda>b. None)" "map_rank world0 = length"
  by (simp_all add: world0_def)

lemma calculateSiteName_rules0:
  "calculateSiteName length rules0 = Some ''minikube + skaffold + kubernetes''"
  by (simp add: calculateSiteName_def rules0_def strings_Split.simps last_part_def range_seen_def)

lemma startup0:
  "main_startup flags0 world0 =
     ([EMustReadToken [] ''GITHUB_TOKEN'', EOpen ''config/kubernetes.yaml'',
       EInfo ''cache path: %s'', EInitialize (cachePath flags0 world0),
       ETriageNew [] 86400000000000, ELoad ''config/kubernetes.yaml'', EListRules,
       EInfo ''Loaded %d rules'', ESave, EUpdaterNew 60000000000 3600000000000,
       EInfo ''Starting update loop: %+v'', ENotify [SIGINT, SIGTERM],
       EGo SignalHandler, EGo LoopRunner],
      Inr ''minikube + skaffold + kubernetes'')"
  by (simp add: main_startup_def findPath_def sn_def calculateSiteName_rules0 cfg_Repos_def)

lemma reachable_state0: "reachable flags0 world0 state0"
  unfolding state0_def by (rule r_start) (simp add: startup0)

text \<open>The example cache path meets the contract of the spec.\<close>

lemma replicate_prefix_eq:
  assumes "replicate n a @ b # xs = replicate m a @ b # ys" "a \<noteq> b"
  shows "n = m"
proof -
  have "takeWhile (\<lambda>x. x = a) (replicate n a @ b # xs) = replicate n a" for n xs
    using assms(2) by (induction n) auto
  with assms(1) have "replicate n a = replicate m a" by metis
  then show ?thesis by (metis length_replicate)
qed

lemma disk_path0_spec: "DefaultDiskPath_spec disk_path0"
  unfolding DefaultDiskPath_spec_def
proof (intro allI impI)
  fix c r c' r'
  assume e: "disk_path0 c r = disk_path0 c' r'"
  then have "replicate (length c) CHR ''_'' @ CHR ''/'' # (c @ r) =
             replicate (length c') CHR ''_'' @ CHR ''/'' # (c' @ r')"
    by (simp add: disk_path0_def)
  then have l: "length c = length c'" by (rule replicate_prefix_eq) simp
  with e have "c @ r = c' @ r'" by (simp add: disk_path0_def)
  with l show "c = c' \<and> r = r'" by simp
qed

section \<open>Start-up\<close>

text \<open>A run that ends during start-up has no continuous-mode state: no goroutine is
  started and no server listens.\<close>

lemma no_continuous_mode: "snd (main_startup f w) = Inl e \<Longrightarrow> \<not> reachable f w s"
  using reachable_startup [of f w s] by auto

text \<open>
  C8: with an empty \<^verbatim>\<open>--config\<close> value the whole run is the fatal log of line 63
  and exit status 1: no token is read, no file is opened, the cache is not
  initialised, and continuous mode is never entered.
\<close>

theorem config_flag_required:
  "configPath f = [] \<Longrightarrow>
     main_startup f w = ([EExit ''--config is required''], Inl (Exited 1)) \<and> \<not> reachable f w s"
proof -
  assume c: "configPath f = []"
  then have m: "main_startup f w = ([EExit ''--config is required''], Inl (Exited 1))"
    by (simp add: main_startup_def)
  then have "snd (main_startup f w) = Inl (Exited 1)" by simp
  then have "\<not> reachable f w s" by (rule no_continuous_mode)
  with m show ?thesis by simp
qed

theorem config_flag_required_witness:
  "configPath (flags0\<lparr>configPath := []\<rparr>) = [] \<and>
   main_startup (flags0\<lparr>configPath := []\<rparr>) world0 =
     ([EExit ''--config is required''], Inl (Exited 1))"
  using config_flag_required [of "flags0\<lparr>configPath := []\<rparr>" world0] by simp

text \<open>
  C3: when \<^verbatim>\<open>c.Initialize()\<close> returns an error, the run ends during start-up and
  reaches no later stage: \<^verbatim>\<open>triage.New\<close>, \<^verbatim>\<open>Load\<close>, \<^verbatim>\<open>ListRules\<close>, \<^verbatim>\<open>Save\<close>, the
  updater, \<^verbatim>\<open>RunOnce\<close>, the goroutines and the server are never reached. Where
  \<^verbatim>\<open>Initialize\<close> was called, the run ends with the fatal log of line 85 and status 1.
\<close>

theorem initialize_failure_is_fatal:
  "Initialize w (cachePath f w) = Some err \<Longrightarrow>
     (\<exists>e. snd (main_startup f w) = Inl e) \<and> \<not> reachable f w s \<and>
     (\<forall>r m. ETriageNew r m \<notin> set (fst (main_startup f w))) \<and>
     (\<forall>p. ELoad p \<notin> set (fst (main_startup f w))) \<and>
     EListRules \<notin> set (fst (main_startup f w)) \<and>
     ESave \<notin> set (fst (main_startup f w)) \<and>
     (\<forall>a b. EUpdaterNew a b \<notin> set (fst (main_startup f w))) \<and>
     (\<forall>b. ERunOnce b \<notin> set (fst (main_startup f w))) \<and>
     (\<forall>t. EGo t \<notin> set (fst (main_startup f w))) \<and>
     (EInitialize (cachePath f w) \<in> set (fst (main_startup f w)) \<longrightarrow>
        snd (main_startup f w) = Inl (Exited 1) \<and>
        last (fst (main_startup f w)) = EExit ''initcache load to %s: %v'')"
proof -
  assume i: "Initialize w (cachePath f w) = Some err"
  have 1: "\<exists>e. snd (main_startup f w) = Inl e"
    using i by (simp add: main_startup_def Let_def split_beta split: sum.split option.split)
  then have 2: "\<not> reachable f w s" using no_continuous_mode by blast
  have 3: "(\<forall>r m. ETriageNew r m \<notin> set (fst (main_startup f w))) \<and>
     (\<forall>p. ELoad p \<notin> set (fst (main_startup f w))) \<and>
     EListRules \<notin> set (fst (main_startup f w)) \<and>
     ESave \<notin> set (fst (main_startup f w))"
    using i by (simp add: main_startup_def Let_def split_beta split: sum.split option.split)
  have 4: "(\<forall>a b. EUpdaterNew a b \<notin> set (fst (main_startup f w))) \<and>
     (\<forall>b. ERunOnce b \<notin> set (fst (main_startup f w))) \<and>
     (\<forall>t. EGo t \<notin> set (fst (main_startup f w)))"
    using i by (simp add: main_startup_def Let_def split_beta split: sum.split option.split)
  have 5: "EInitialize (cachePath f w) \<in> set (fst (main_startup f w)) \<longrightarrow>
        snd (main_startup f w) = Inl (Exited 1) \<and>
        last (fst (main_startup f w)) = EExit ''initcache load to %s: %v''"
    using i by (simp add: main_startup_def Let_def split_beta split: sum.split option.split)
  from 1 2 3 4 5 show ?thesis by blast
qed

theorem initialize_failure_is_fatal_witness:
  "Initialize (world0\<lparr>Initialize := \<lambda>p. Some ''corrupt''\<rparr>)
     (cachePath flags0 (world0\<lparr>Initialize := \<lambda>p. Some ''corrupt''\<rparr>)) = Some ''corrupt'' \<and>
   EInitialize (cachePath flags0 (world0\<lparr>Initialize := \<lambda>p. Some ''corrupt''\<rparr>))
     \<in> set (fst (main_startup flags0 (world0\<lparr>Initialize := \<lambda>p. Some ''corrupt''\<rparr>))) \<and>
   snd (main_startup flags0 (world0\<lparr>Initialize := \<lambda>p. Some ''corrupt''\<rparr>)) = Inl (Exited 1) \<and>
   last (fst (main_startup flags0 (world0\<lparr>Initialize := \<lambda>p. Some ''corrupt''\<rparr>))) =
     EExit ''initcache load to %s: %v''"
proof -
  let ?w = "world0\<lparr>Initialize := \<lambda>p. Some ''corrupt''\<rparr>"
  have i: "Initialize ?w (cachePath flags0 ?w) = Some ''corrupt''" by simp
  have e: "EInitialize (cachePath flags0 ?w) \<in> set (fst (main_startup flags0 ?w))"
    by (simp add: main_startup_def findPath_def)
  from initialize_failure_is_fatal [OF i, of "init_cstate [] []"] e i show ?thesis by blast
qed

text \<open>
  C2: with \<^verbatim>\<open>--dry-run\<close> the run ends during start-up, so no goroutine and no
  server is started; \<^verbatim>\<open>RunOnce\<close> is never called unforced and is called at most once.
  When start-up gets as far as building the updater (line 119), \<^verbatim>\<open>RunOnce(ctx, true)\<close>
  is called exactly once, and the exit status is 0 if it returned \<^verbatim>\<open>nil\<close> and 1,
  after the fatal log of line 131, if it returned an error.
\<close>

theorem dry_run_runs_once:
  "dryRun f \<Longrightarrow>
     (\<exists>e. snd (main_startup f w) = Inl e) \<and> \<not> reachable f w s \<and>
     count_list (fst (main_startup f w)) (ERunOnce True) \<le> 1 \<and>
     ERunOnce False \<notin> set (fst (main_startup f w)) \<and>
     (EUpdaterNew (minRefresh f) (maxRefresh f) \<in> set (fst (main_startup f w)) \<longrightarrow>
        count_list (fst (main_startup f w)) (ERunOnce True) = 1 \<and>
        snd (main_startup f w) = Inl (Exited (if RunOnce w True = None then 0 else 1)) \<and>
        (RunOnce w True \<noteq> None \<longrightarrow>
           last (fst (main_startup f w)) = EExit ''run failed: %v''))"
proof -
  assume d: "dryRun f"
  have 1: "\<exists>e. snd (main_startup f w) = Inl e"
    using d by (simp add: main_startup_def Let_def split_beta split: sum.split option.split)
  then have 2: "\<not> reachable f w s" using no_continuous_mode by blast
  have 3: "count_list (fst (main_startup f w)) (ERunOnce True) \<le> 1"
    by (simp add: main_startup_def Let_def split_beta split: sum.split option.split)
  have 4: "ERunOnce False \<notin> set (fst (main_startup f w))"
    by (simp add: main_startup_def Let_def split_beta split: sum.split option.split)
  have 5: "EUpdaterNew (minRefresh f) (maxRefresh f) \<in> set (fst (main_startup f w)) \<longrightarrow>
        count_list (fst (main_startup f w)) (ERunOnce True) = 1 \<and>
        snd (main_startup f w) = Inl (Exited (if RunOnce w True = None then 0 else 1)) \<and>
        (RunOnce w True \<noteq> None \<longrightarrow>
           last (fst (main_startup f w)) = EExit ''run failed: %v'')"
    using d by (simp add: main_startup_def Let_def split_beta split: sum.split option.split)
  from 1 2 3 4 5 show ?thesis by blast
qed

theorem dry_run_runs_once_witness:
  "dryRun (flags0\<lparr>dryRun := True\<rparr>) \<and>
   EUpdaterNew 60000000000 3600000000000
     \<in> set (fst (main_startup (flags0\<lparr>dryRun := True\<rparr>)
                (world0\<lparr>RunOnce := \<lambda>b. Some ''rate limited''\<rparr>))) \<and>
   count_list (fst (main_startup (flags0\<lparr>dryRun := True\<rparr>)
                (world0\<lparr>RunOnce := \<lambda>b. Some ''rate limited''\<rparr>))) (ERunOnce True) = 1 \<and>
   snd (main_startup (flags0\<lparr>dryRun := True\<rparr>)
         (world0\<lparr>RunOnce := \<lambda>b. Some ''rate limited''\<rparr>)) = Inl (Exited 1)"
proof -
  let ?f = "flags0\<lparr>dryRun := True\<rparr>"
  let ?w = "world0\<lparr>RunOnce := \<lambda>b. Some ''rate limited''\<rparr>"
  have d: "dryRun ?f" by simp
  have u: "EUpdaterNew (minRefresh ?f) (maxRefresh ?f) \<in> set (fst (main_startup ?f ?w))"
    by (simp add: main_startup_def findPath_def sn_def calculateSiteName_rules0)
  from dry_run_runs_once [OF d, of ?w "init_cstate [] []"] u d show ?thesis by simp
qed

text \<open>\<^verbatim>\<open>ListRules\<close> is called exactly when every call before it has succeeded; from
  there the events up to the call of \<^verbatim>\<open>c.Save()\<close> of line 115 are fixed.\<close>

lemma listrules_called_iff:
  "EListRules \<in> set (fst (main_startup f w)) \<longleftrightarrow>
     configPath f \<noteq> [] \<and> (\<exists>tok. MustReadToken w (githubTokenFile f) ''GITHUB_TOKEN'' = Inr tok) \<and>
     os_Open w (snd (findPath w (configPath f))) = None \<and>
     Initialize w (cachePath f w) = None \<and> Load w = None"
  by (simp add: main_startup_def Let_def split_beta split: sum.split option.split)

lemma startup_after_load:
  assumes "configPath f \<noteq> []" "MustReadToken w (githubTokenFile f) ''GITHUB_TOKEN'' = Inr tok"
    "os_Open w (snd (findPath w (configPath f))) = None"
    "Initialize w (cachePath f w) = None" "Load w = None" "ListRules w = Inr ts"
  shows "\<exists>post. fst (main_startup f w) =
      ([EMustReadToken (githubTokenFile f) ''GITHUB_TOKEN''] @ fst (findPath w (configPath f)) @
       [EOpen (snd (findPath w (configPath f))), EInfo ''cache path: %s'',
        EInitialize (cachePath f w), ETriageNew (cfg_Repos f) (memberRefresh f),
        ELoad (snd (findPath w (configPath f))), EListRules, EInfo ''Loaded %d rules'']) @
      ESave # post \<and> ESave \<notin> set post \<and>
      (Save w \<noteq> None \<longrightarrow> post = [EExit ''initcache save to %s: %v''] \<and>
         snd (main_startup f w) = Inl (Exited 1))"
proof -
  obtain name where n: "sn f w ts = Some name" using sn_not_None [of f w ts] by blast
  show ?thesis
    using assms n
    by (simp add: main_startup_def Let_def split_beta split: option.split)
qed

text \<open>
  C4: \<^verbatim>\<open>c.Save()\<close> is called at most once during start-up. When the configuration
  has been loaded (\<^verbatim>\<open>ListRules\<close> was called and returned rules) it is called exactly
  once, after \<^verbatim>\<open>Load\<close> and \<^verbatim>\<open>ListRules\<close> and before the updater is built, \<^verbatim>\<open>RunOnce\<close>
  is called or a goroutine is started; if it returns an error the run ends there
  with the fatal log of line 116 and status 1. A run in continuous mode has made
  that call exactly once, with success.
\<close>

theorem save_precheck_once:
  "count_list (fst (main_startup f w)) ESave \<le> 1 \<and>
   (EListRules \<in> set (fst (main_startup f w)) \<and> ListRules w = Inr ts \<longrightarrow>
      (\<exists>pre post. fst (main_startup f w) = pre @ ESave # post \<and>
         ESave \<notin> set pre \<and> ESave \<notin> set post \<and>
         (\<exists>p. ELoad p \<in> set pre) \<and> EListRules \<in> set pre \<and>
         (\<forall>a b. EUpdaterNew a b \<notin> set pre) \<and> (\<forall>b. ERunOnce b \<notin> set pre) \<and>
         (\<forall>t. EGo t \<notin> set pre) \<and>
         (Save w \<noteq> None \<longrightarrow> post = [EExit ''initcache save to %s: %v''] \<and>
            snd (main_startup f w) = Inl (Exited 1) \<and> \<not> reachable f w s))) \<and>
   (reachable f w s \<longrightarrow> count_list (fst (main_startup f w)) ESave = 1 \<and> Save w = None)"
proof -
  have 1: "count_list (fst (main_startup f w)) ESave \<le> 1"
    by (simp add: main_startup_def Let_def split_beta split: sum.split option.split)
  have 2: "\<exists>pre post. fst (main_startup f w) = pre @ ESave # post \<and>
         ESave \<notin> set pre \<and> ESave \<notin> set post \<and>
         (\<exists>p. ELoad p \<in> set pre) \<and> EListRules \<in> set pre \<and>
         (\<forall>a b. EUpdaterNew a b \<notin> set pre) \<and> (\<forall>b. ERunOnce b \<notin> set pre) \<and>
         (\<forall>t. EGo t \<notin> set pre) \<and>
         (Save w \<noteq> None \<longrightarrow> post = [EExit ''initcache save to %s: %v''] \<and>
            snd (main_startup f w) = Inl (Exited 1) \<and> \<not> reachable f w s)"
    if l: "EListRules \<in> set (fst (main_startup f w))" and r: "ListRules w = Inr ts"
  proof -
    from l obtain tok where c: "configPath f \<noteq> []"
      "MustReadToken w (githubTokenFile f) ''GITHUB_TOKEN'' = Inr tok"
      "os_Open w (snd (findPath w (configPath f))) = None"
      "Initialize w (cachePath f w) = None" "Load w = None"
      unfolding listrules_called_iff by blast
    let ?pre = "[EMustReadToken (githubTokenFile f) ''GITHUB_TOKEN''] @ fst (findPath w (configPath f)) @
       [EOpen (snd (findPath w (configPath f))), EInfo ''cache path: %s'',
        EInitialize (cachePath f w), ETriageNew (cfg_Repos f) (memberRefresh f),
        ELoad (snd (findPath w (configPath f))), EListRules, EInfo ''Loaded %d rules'']"
    from startup_after_load [OF c r] obtain post where
      p: "fst (main_startup f w) = ?pre @ ESave # post" "ESave \<notin> set post"
      "Save w \<noteq> None \<longrightarrow> post = [EExit ''initcache save to %s: %v''] \<and>
         snd (main_startup f w) = Inl (Exited 1)"
      by blast
    have q: "ESave \<notin> set ?pre \<and> (\<exists>p. ELoad p \<in> set ?pre) \<and> EListRules \<in> set ?pre \<and>
         (\<forall>a b. EUpdaterNew a b \<notin> set ?pre) \<and> (\<forall>b. ERunOnce b \<notin> set ?pre) \<and>
         (\<forall>t. EGo t \<notin> set ?pre)"
      by simp
    have "Save w \<noteq> None \<longrightarrow> \<not> reachable f w s" using p(3) no_continuous_mode by blast
    with p q show ?thesis by blast
  qed
  have 3: "count_list (fst (main_startup f w)) ESave = 1 \<and> Save w = None" if "reachable f w s"
  proof -
    from reachable_startup [OF that] obtain tr where "main_startup f w = (tr, Inr (site s))" ..
    then have "snd (main_startup f w) = Inr (site s)" by simp
    then show ?thesis
      by (simp add: main_startup_def Let_def split_beta split: sum.splits option.splits if_splits)
  qed
  from 1 2 3 show ?thesis by blast
qed

theorem save_precheck_once_witness:
  "EListRules \<in> set (fst (main_startup flags0 (world0\<lparr>Save := Some ''read-only''\<rparr>))) \<and>
   ListRules (world0\<lparr>Save := Some ''read-only''\<rparr>) = Inr rules0 \<and>
   snd (main_startup flags0 (world0\<lparr>Save := Some ''read-only''\<rparr>)) = Inl (Exited 1) \<and>
   reachable flags0 world0 state0 \<and>
   count_list (fst (main_startup flags0 world0)) ESave = 1"
proof -
  let ?w = "world0\<lparr>Save := Some ''read-only''\<rparr>"
  have l: "EListRules \<in> set (fst (main_startup flags0 ?w))"
    by (simp add: main_startup_def findPath_def sn_def calculateSiteName_rules0)
  have r: "ListRules ?w = Inr rules0" by simp
  have s: "Save ?w \<noteq> None" by simp
  from save_precheck_once [of flags0 ?w rules0 state0] l r s
  have 1: "snd (main_startup flags0 ?w) = Inl (Exited 1)" by blast
  from save_precheck_once [of flags0 world0 rules0 state0] reachable_state0
  have 2: "count_list (fst (main_startup flags0 world0)) ESave = 1" by blast
  from l r 1 2 reachable_state0 show ?thesis by blast
qed

text \<open>
  C6: \<^verbatim>\<open>cfg.Repos\<close> is the comma-split of a non-empty \<^verbatim>\<open>--repos\<close> value and is left
  empty for the empty value; under the spec's rule for the override list, a rule's
  repositories are then the split list, whatever the configuration declares, and
  the declared ones when the value is empty. \<^verbatim>\<open>triage.New\<close> receives that
  \<^verbatim>\<open>cfg.Repos\<close> immediately before the one call of \<^verbatim>\<open>Load\<close>, hence before any rule is
  loaded or listed.
\<close>

theorem repos_override_supersedes:
  "cfg_Repos f = (if reposOverride f = [] then [] else strings_Split (reposOverride f) CHR '','') \<and>
   rule_repos (cfg_Repos f) declared =
     (if reposOverride f = [] then declared else strings_Split (reposOverride f) CHR '','') \<and>
   (\<forall>p. ELoad p \<in> set (fst (main_startup f w)) \<longrightarrow>
      (\<exists>pre post. fst (main_startup f w) =
          pre @ ETriageNew (cfg_Repos f) (memberRefresh f) # ELoad p # post \<and>
          (\<forall>q. ELoad q \<notin> set pre) \<and> (\<forall>q. ELoad q \<notin> set post) \<and>
          EListRules \<notin> set pre))"
proof -
  have 1: "cfg_Repos f =
      (if reposOverride f = [] then [] else strings_Split (reposOverride f) CHR '','')"
    by (simp add: cfg_Repos_def)
  have 2: "rule_repos (cfg_Repos f) declared =
     (if reposOverride f = [] then declared else strings_Split (reposOverride f) CHR '','')"
    by (simp add: rule_repos_def cfg_Repos_def Split_not_Nil)
  have 3: "\<exists>pre post. fst (main_startup f w) =
          pre @ ETriageNew (cfg_Repos f) (memberRefresh f) # ELoad p # post \<and>
          (\<forall>q. ELoad q \<notin> set pre) \<and> (\<forall>q. ELoad q \<notin> set post) \<and> EListRules \<notin> set pre"
    if l: "ELoad p \<in> set (fst (main_startup f w))" for p
  proof -
    let ?pre = "[EMustReadToken (githubTokenFile f) ''GITHUB_TOKEN''] @
       fst (findPath w (configPath f)) @
       [EOpen (snd (findPath w (configPath f))), EInfo ''cache path: %s'',
        EInitialize (cachePath f w)]"
    have "p = snd (findPath w (configPath f)) \<and>
      (\<exists>post. fst (main_startup f w) =
         ?pre @ ETriageNew (cfg_Repos f) (memberRefresh f) # ELoad p # post \<and>
         (\<forall>q. ELoad q \<notin> set post))"
      using l
      by (simp add: main_startup_def Let_def split_beta
               split: sum.splits option.splits if_splits)
    moreover have "(\<forall>q. ELoad q \<notin> set ?pre) \<and> EListRules \<notin> set ?pre" by simp
    ultimately show ?thesis by blast
  qed
  from 1 2 3 show ?thesis by blast
qed

theorem repos_override_supersedes_witness:
  "cfg_Repos (flags0\<lparr>reposOverride := ''kubernetes/minikube,google/triage-party''\<rparr>) =
     [''kubernetes/minikube'', ''google/triage-party''] \<and>
   rule_repos (cfg_Repos (flags0\<lparr>reposOverride := ''kubernetes/minikube,google/triage-party''\<rparr>))
     [''kubernetes/kubernetes''] = [''kubernetes/minikube'', ''google/triage-party''] \<and>
   ELoad ''config/kubernetes.yaml''
     \<in> set (fst (main_startup
                (flags0\<lparr>reposOverride := ''kubernetes/minikube,google/triage-party''\<rparr>) world0)) \<and>
   (\<exists>pre post.
      fst (main_startup (flags0\<lparr>reposOverride := ''kubernetes/minikube,google/triage-party''\<rparr>)
             world0) =
        pre @ ETriageNew [''kubernetes/minikube'', ''google/triage-party''] 86400000000000 #
          ELoad ''config/kubernetes.yaml'' # post)"
proof -
  let ?f = "flags0\<lparr>reposOverride := ''kubernetes/minikube,google/triage-party''\<rparr>"
  have sp: "strings_Split ''kubernetes/minikube,google/triage-party'' CHR '','' =
      [''kubernetes/minikube'', ''google/triage-party'']"
    by (simp add: strings_Split.simps)
  have l: "ELoad ''config/kubernetes.yaml'' \<in> set (fst (main_startup ?f world0))"
    by (simp add: main_startup_def findPath_def sn_def calculateSiteName_rules0)
  note T = repos_override_supersedes [of ?f "[''kubernetes/kubernetes'']" world0]
  have t1: "cfg_Repos ?f = [''kubernetes/minikube'', ''google/triage-party'']"
    by (simp add: T [THEN conjunct1] sp)
  have t2: "rule_repos (cfg_Repos ?f) [''kubernetes/kubernetes''] =
       [''kubernetes/minikube'', ''google/triage-party'']"
    by (simp add: T [THEN conjunct2, THEN conjunct1] sp)
  note t3 = T [THEN conjunct2, THEN conjunct2]
  from t3 l obtain pre post where
    "fst (main_startup ?f world0) =
       pre @ ETriageNew (cfg_Repos ?f) (memberRefresh ?f) # ELoad ''config/kubernetes.yaml'' # post"
    by blast
  then have "\<exists>pre post. fst (main_startup ?f world0) =
      pre @ ETriageNew [''kubernetes/minikube'', ''google/triage-party''] 86400000000000 #
        ELoad ''config/kubernetes.yaml'' # post"
    unfolding t1 by auto
  with t1 t2 l show ?thesis by blast
qed

text \<open>
  C7: the cache is initialised from \<open>cachePath\<close>, which is the \<^verbatim>\<open>--initcache\<close> value
  verbatim when that is not empty, and \<^verbatim>\<open>DefaultDiskPath(configPath, reposOverride)\<close>
  otherwise: two runs without \<^verbatim>\<open>--initcache\<close> and with the same configuration path
  and override use the same path, and, since the spec's \<^verbatim>\<open>DefaultDiskPath\<close> maps
  different pairs to different paths, runs that differ in either use different paths.
\<close>

theorem cache_path_of_configuration:
  "(initCachePath f \<noteq> [] \<longrightarrow> cachePath f w = initCachePath f) \<and>
   (initCachePath f = [] \<longrightarrow> cachePath f w = DefaultDiskPath w (configPath f) (reposOverride f)) \<and>
   (\<forall>p. EInitialize p \<in> set (fst (main_startup f w)) \<longrightarrow> p = cachePath f w) \<and>
   (initCachePath f = [] \<and> initCachePath f' = [] \<and> configPath f = configPath f' \<and>
      reposOverride f = reposOverride f' \<longrightarrow> cachePath f w = cachePath f' w) \<and>
   (DefaultDiskPath_spec (DefaultDiskPath w) \<and> initCachePath f = [] \<and> initCachePath f' = [] \<and>
      (configPath f \<noteq> configPath f' \<or> reposOverride f \<noteq> reposOverride f') \<longrightarrow>
      cachePath f w \<noteq> cachePath f' w)"
proof -
  have 1: "\<forall>p. EInitialize p \<in> set (fst (main_startup f w)) \<longrightarrow> p = cachePath f w"
    by (simp add: main_startup_def Let_def split_beta split: sum.split option.split)
  have 2: "cachePath f w \<noteq> cachePath f' w"
    if d: "DefaultDiskPath_spec (DefaultDiskPath w)"
      and i: "initCachePath f = []" "initCachePath f' = []"
      and n: "configPath f \<noteq> configPath f' \<or> reposOverride f \<noteq> reposOverride f'"
  proof
    assume "cachePath f w = cachePath f' w"
    with i have "DefaultDiskPath w (configPath f) (reposOverride f) =
                 DefaultDiskPath w (configPath f') (reposOverride f')"
      by (simp add: cachePath_def)
    with d have "configPath f = configPath f' \<and> reposOverride f = reposOverride f'"
      unfolding DefaultDiskPath_spec_def by blast
    with n show False by blast
  qed
  have 3: "initCachePath f \<noteq> [] \<longrightarrow> cachePath f w = initCachePath f"
    by (simp add: cachePath_def)
  have 4: "initCachePath f = [] \<longrightarrow>
      cachePath f w = DefaultDiskPath w (configPath f) (reposOverride f)"
    by (simp add: cachePath_def)
  have 5: "initCachePath f = [] \<and> initCachePath f' = [] \<and> configPath f = configPath f' \<and>
      reposOverride f = reposOverride f' \<longrightarrow> cachePath f w = cachePath f' w"
    by (simp add: cachePath_def)
  from 1 2 3 4 5 show ?thesis by blast
qed

theorem cache_path_of_configuration_witness:
  "DefaultDiskPath_spec (DefaultDiskPath world0) \<and> initCachePath flags0 = [] \<and>
   initCachePath (flags0\<lparr>reposOverride := ''kubernetes/minikube''\<rparr>) = [] \<and>
   reposOverride flags0 \<noteq> reposOverride (flags0\<lparr>reposOverride := ''kubernetes/minikube''\<rparr>) \<and>
   cachePath flags0 world0 \<noteq> cachePath (flags0\<lparr>reposOverride := ''kubernetes/minikube''\<rparr>) world0 \<and>
   initCachePath (flags0\<lparr>initCachePath := ''/var/tp.cache''\<rparr>) \<noteq> [] \<and>
   cachePath (flags0\<lparr>initCachePath := ''/var/tp.cache''\<rparr>) world0 = ''/var/tp.cache''"
proof -
  let ?f = "flags0\<lparr>reposOverride := ''kubernetes/minikube''\<rparr>"
  let ?g = "flags0\<lparr>initCachePath := ''/var/tp.cache''\<rparr>"
  have s: "DefaultDiskPath_spec (DefaultDiskPath world0)" by (simp add: disk_path0_spec)
  have a: "initCachePath flags0 = []" "initCachePath ?f = []"
    "reposOverride flags0 \<noteq> reposOverride ?f" by simp_all
  have b: "initCachePath ?g \<noteq> []" "initCachePath ?g = ''/var/tp.cache''" by simp_all
  from cache_path_of_configuration [of flags0 world0 ?f] s a
  have 1: "cachePath flags0 world0 \<noteq> cachePath ?f world0" by blast
  from cache_path_of_configuration [of ?g world0 flags0] b
  have 2: "cachePath ?g world0 = ''/var/tp.cache''" by metis
  from s a b(1) 1 2 show ?thesis by blast
qed

section \<open>Site name and listen address\<close>

lemma count_list_distinct: "distinct xs \<Longrightarrow> count_list xs b = (if b \<in> set xs then 1 else 0)"
  by (induction xs) auto

lemma startup_no_listen: "EListenAndServe a \<notin> set (fst (main_startup f w))"
  by (simp add: main_startup_def Let_def split_beta split: sum.split option.split)

lemma state0_simps [simp]:
  "sigc state0 = []" "hpc state0 = HRange" "lpc state0 = LLoop" "mpc state0 = MSetup"
  "ended state0 = None" "site state0 = ''minikube + skaffold + kubernetes''"
  by (simp_all add: state0_def init_cstate_def)

lemma listenAddr0: "listenAddr flags0 world0 = '':8080''"
  by (simp add: listenAddr_def os_Getenv_def Sprintf_d_def decimal.simps digit_char_def)

lemma serve_run:
  assumes "reachable f w s" "ended s = None" "mpc s = MSetup"
  shows "reachable f w (s\<lparr>mpc := MServe (listenAddr f w),
           events := events s @ map (Pair MainThread) (main_serve f w (site s))\<rparr>)"
  using assms(1) by (rule r_step) (rule m_serve [OF assms(2,3)])

text \<open>
  C10: with a non-empty \<^verbatim>\<open>--name\<close> the site name is that value, whatever the rules
  are. With an empty one it is the \<^verbatim>\<open>" + "\<close>-join of a list of names in which a
  name occurs exactly once if it is the last \<^verbatim>\<open>"/"\<close>-separated part of some repository
  of some rule, and not at all otherwise; the computation always returns. The name
  a run in continuous mode serves under is the one computed from the rules that
  \<^verbatim>\<open>ListRules\<close> returned.
\<close>

theorem site_name_from_rules:
  "(siteName f \<noteq> [] \<longrightarrow> sn f w ts = Some (siteName f)) \<and>
   (siteName f = [] \<longrightarrow>
      (\<exists>names. sn f w ts = Some (strings_Join names '' + '') \<and>
         (\<forall>b. count_list names b =
            (if \<exists>t \<in> set ts. \<exists>r \<in> set (Repos t). last (strings_Split r CHR ''/'') = b
             then 1 else 0)))) \<and>
   (reachable f w s \<longrightarrow> (\<exists>rules. ListRules w = Inr rules \<and> sn f w rules = Some (site s)))"
proof -
  have 1: "siteName f \<noteq> [] \<longrightarrow> sn f w ts = Some (siteName f)" by (simp add: sn_def)
  have 2: "\<exists>names. sn f w ts = Some (strings_Join names '' + '') \<and>
         (\<forall>b. count_list names b =
            (if \<exists>t \<in> set ts. \<exists>r \<in> set (Repos t). last (strings_Split r CHR ''/'') = b
             then 1 else 0))" if e: "siteName f = []"
  proof -
    from calculateSiteName_names [of "map_rank w" ts] obtain names where
      n: "calculateSiteName (map_rank w) ts = Some (strings_Join names '' + '')"
         "distinct names"
         "set names = (\<Union>t\<in>set ts. (\<lambda>r. last (strings_Split r CHR ''/'')) ` set (Repos t))"
      by blast
    have "count_list names b =
            (if \<exists>t \<in> set ts. \<exists>r \<in> set (Repos t). last (strings_Split r CHR ''/'') = b
             then 1 else 0)" for b
    proof (cases "b \<in> set names")
      case True
      with n(2) have "count_list names b = 1" by (simp add: count_list_distinct)
      moreover from True n(3)
      have "\<exists>t \<in> set ts. \<exists>r \<in> set (Repos t). last (strings_Split r CHR ''/'') = b" by auto
      ultimately show ?thesis by simp
    next
      case False
      then have "count_list names b = 0" by simp
      moreover from False n(3)
      have "\<not> (\<exists>t \<in> set ts. \<exists>r \<in> set (Repos t). last (strings_Split r CHR ''/'') = b)" by auto
      ultimately show ?thesis by simp
    qed
    then have c: "\<forall>b. count_list names b =
            (if \<exists>t \<in> set ts. \<exists>r \<in> set (Repos t). last (strings_Split r CHR ''/'') = b
             then 1 else 0)" ..
    from n(1) e have "sn f w ts = Some (strings_Join names '' + '')" by (simp add: sn_def)
    with c show ?thesis by blast
  qed
  have 3: "\<exists>rules. ListRules w = Inr rules \<and> sn f w rules = Some (site s)" if "reachable f w s"
  proof -
    from reachable_startup [OF that] obtain tr where "main_startup f w = (tr, Inr (site s))" ..
    then have "snd (main_startup f w) = Inr (site s)" by simp
    then show ?thesis
      by (simp add: main_startup_def Let_def split_beta split: sum.splits option.splits if_splits)
  qed
  from 1 2 3 show ?thesis by blast
qed

theorem site_name_from_rules_witness:
  "siteName flags0 = [] \<and>
   sn flags0 world0 rules0 = Some ''minikube + skaffold + kubernetes'' \<and>
   siteName (flags0\<lparr>siteName := ''Triage''\<rparr>) \<noteq> [] \<and>
   sn (flags0\<lparr>siteName := ''Triage''\<rparr>) world0 rules0 = Some ''Triage'' \<and>
   reachable flags0 world0 state0 \<and>
   (\<exists>rules. ListRules world0 = Inr rules \<and> sn flags0 world0 rules = Some (site state0))"
proof -
  let ?g = "flags0\<lparr>siteName := ''Triage''\<rparr>"
  note T = site_name_from_rules [of flags0 world0 rules0 state0]
  note U = site_name_from_rules [of ?g world0 rules0 state0]
  have g: "siteName ?g \<noteq> []" "siteName ?g = ''Triage''" by simp_all
  from U g have 1: "sn ?g world0 rules0 = Some ''Triage''" by metis
  from T reachable_state0
  have 2: "\<exists>rules. ListRules world0 = Inr rules \<and> sn flags0 world0 rules = Some (site state0)"
    by blast
  then have 3: "sn flags0 world0 rules0 = Some ''minikube + skaffold + kubernetes''" by simp
  from g(1) 1 2 3 reachable_state0 show ?thesis by simp
qed

text \<open>
  C9: if \<^verbatim>\<open>PORT\<close> is set to a non-empty string the listen address is \<^verbatim>\<open>":"\<close> followed
  by it, whatever \<^verbatim>\<open>--port\<close> is; if \<^verbatim>\<open>PORT\<close> is unset or empty it is \<^verbatim>\<open>":"\<close> followed
  by the decimal \<^verbatim>\<open>--port\<close> value. That address is the one \<^verbatim>\<open>main\<close> blocks on in
  \<^verbatim>\<open>ListenAndServe\<close>, and the only one it ever passes to it.
\<close>

theorem listen_address_env_first:
  "(\<forall>p. environ w ''PORT'' = Some p \<and> p \<noteq> [] \<longrightarrow> listenAddr f w = '':'' @ p) \<and>
   (environ w ''PORT'' = None \<or> environ w ''PORT'' = Some [] \<longrightarrow>
      listenAddr f w = '':'' @ Sprintf_d (port f)) \<and>
   (\<forall>a. reachable f w s \<and> mpc s = MServe a \<longrightarrow>
      a = listenAddr f w \<and> (MainThread, EListenAndServe a) \<in> set (events s)) \<and>
   (\<forall>a. reachable f w s \<and> (MainThread, EListenAndServe a) \<in> set (events s) \<longrightarrow>
      a = listenAddr f w)"
proof -
  have 1: "\<forall>p. environ w ''PORT'' = Some p \<and> p \<noteq> [] \<longrightarrow> listenAddr f w = '':'' @ p"
    by (simp add: listenAddr_def os_Getenv_def)
  have 2: "environ w ''PORT'' = None \<or> environ w ''PORT'' = Some [] \<longrightarrow>
      listenAddr f w = '':'' @ Sprintf_d (port f)"
    by (auto simp: listenAddr_def os_Getenv_def)
  have 3: "\<forall>a. reachable f w s \<and> mpc s = MServe a \<longrightarrow>
      a = listenAddr f w \<and> (MainThread, EListenAndServe a) \<in> set (events s)"
    using reachable_serve by blast
  have 4: "a = listenAddr f w"
    if "reachable f w s" "(MainThread, EListenAndServe a) \<in> set (events s)" for a
    using that
  proof (induction rule: reachable.induct)
    case (r_start tr name)
    then have "EListenAndServe a \<in> set (fst (main_startup f w))"
      by (auto simp: init_cstate_def)
    then show ?case by (simp add: startup_no_listen)
  next
    case (r_step s s')
    from r_step.hyps(2) r_step.IH r_step.prems show ?case
      by (cases rule: cstep.cases)
         (auto simp: main_serve_def split_beta Let_def save_check_def loop_check_def
               dest: findPath_events split: if_splits)
  qed
  from 1 2 3 4 show ?thesis by blast
qed

theorem listen_address_env_first_witness:
  "environ world0 ''PORT'' = None \<and> listenAddr flags0 world0 = '':8080'' \<and>
   environ (world0\<lparr>environ := [''PORT'' \<mapsto> ''9000'']\<rparr>) ''PORT'' = Some ''9000'' \<and>
   listenAddr flags0 (world0\<lparr>environ := [''PORT'' \<mapsto> ''9000'']\<rparr>) = '':9000'' \<and>
   reachable flags0 world0
     (state0\<lparr>mpc := MServe (listenAddr flags0 world0),
        events := events state0 @ map (Pair MainThread) (main_serve flags0 world0 (site state0))\<rparr>) \<and>
   (MainThread, EListenAndServe '':8080'') \<in> set (events
     (state0\<lparr>mpc := MServe (listenAddr flags0 world0),
        events := events state0 @ map (Pair MainThread) (main_serve flags0 world0 (site state0))\<rparr>))"
proof -
  let ?w = "world0\<lparr>environ := [''PORT'' \<mapsto> ''9000'']\<rparr>"
  let ?s = "state0\<lparr>mpc := MServe (listenAddr flags0 world0),
        events := events state0 @ map (Pair MainThread) (main_serve flags0 world0 (site state0))\<rparr>"
  have r: "reachable flags0 world0 ?s" by (rule serve_run [OF reachable_state0]) simp_all
  have m: "mpc ?s = MServe '':8080''" by (simp add: listenAddr0)
  have e: "environ ?w ''PORT'' = Some ''9000''" "''9000'' \<noteq> []" by simp_all
  have n: "environ world0 ''PORT'' = None" by simp
  note T = listen_address_env_first [of world0 flags0 ?s]
  note U = listen_address_env_first [of ?w flags0 ?s]
  from T n have 1: "listenAddr flags0 world0 = '':'' @ Sprintf_d (port flags0)" by blast
  from U e have 2: "listenAddr flags0 ?w = '':'' @ ''9000''" by blast
  from T r m have 3: "(MainThread, EListenAndServe '':8080'') \<in> set (events ?s)" by blast
  from 1 have 4: "listenAddr flags0 world0 = '':8080''" by (simp add: listenAddr0)
  from 2 have 5: "listenAddr flags0 ?w = '':9000''" by simp
  from n e(1) r 3 4 5 show ?thesis by blast
qed

section \<open>Shutdown and the update loop\<close>

text \<open>Once a signal is in the channel the handler can run to its end, whatever
  \<^verbatim>\<open>c.Save()\<close> returns.\<close>

lemma signal_run:
  assumes "reachable f w s" "ended s = None" "hpc s = HRange" "sigc s = []"
  shows "reachable f w
    (s\<lparr>sigc := [], hpc := HSaved r,
       events := events s @ [(SignalHandler, EInfo ''signal caught: %v''), (SignalHandler, ESave)] @
                 map (Pair SignalHandler) (save_check r),
       ended := Some (SignalHandler, Exited 0)\<rparr>)"
proof -
  fix sg :: signal
  let ?s1 = "s\<lparr>sigc := [sg]\<rparr>"
  let ?s2 = "?s1\<lparr>sigc := [], hpc := HCaught sg,
                 events := events ?s1 @ [(SignalHandler, EInfo ''signal caught: %v'')]\<rparr>"
  let ?s3 = "?s2\<lparr>hpc := HSaved r, events := events ?s2 @ [(SignalHandler, ESave)]\<rparr>"
  let ?s4 = "?s3\<lparr>events := events ?s3 @ map (Pair SignalHandler) (save_check r),
                 ended := Some (SignalHandler, Exited 0)\<rparr>"
  have 1: "reachable f w ?s1"
    using assms(1) by (rule r_step) (rule deliver [OF assms(2,4)])
  have 2: "reachable f w ?s2"
    using 1 by (rule r_step) (rule h_range, simp_all add: assms)
  have 3: "reachable f w ?s3"
    using 2 by (rule r_step) (rule h_save [where sg = sg], simp_all add: assms)
  have 4: "reachable f w ?s4"
    using 3 by (rule r_step) (rule h_exit [where r = r], simp_all add: assms)
  then show ?thesis by simp
qed

text \<open>While the process runs nothing blocks the handler: a signal can always be
  delivered and handled to the end.\<close>

lemma handler_exit_enabled:
  assumes "ended s = None" "hpc s = HSaved r"
  shows "\<exists>s'. cstep f w s s' \<and> ended s' = Some (SignalHandler, Exited 0)"
proof -
  let ?s' = "s\<lparr>events := events s @ map (Pair SignalHandler) (save_check r),
                ended := Some (SignalHandler, Exited 0)\<rparr>"
  have "cstep f w s ?s'" using assms by (rule h_exit)
  moreover have "ended ?s' = Some (SignalHandler, Exited 0)" by simp
  ultimately show ?thesis by blast
qed

lemma handler_save_enabled:
  assumes "ended s = None" "hpc s = HCaught sg"
  shows "\<exists>s'. cstep f w s s' \<and> ended s' = None \<and> hpc s' = HSaved r"
proof -
  let ?s' = "s\<lparr>hpc := HSaved r, events := events s @ [(SignalHandler, ESave)]\<rparr>"
  have "cstep f w s ?s'" using assms by (rule h_save)
  moreover have "ended ?s' = None \<and> hpc ?s' = HSaved r" using assms by simp
  ultimately show ?thesis by blast
qed

lemma handler_range_enabled:
  assumes "ended s = None" "hpc s = HRange" "sigc s = sg # q"
  shows "\<exists>s'. cstep f w s s' \<and> ended s' = None \<and> hpc s' = HCaught sg"
proof -
  let ?s' = "s\<lparr>sigc := q, hpc := HCaught sg,
                events := events s @ [(SignalHandler, EInfo ''signal caught: %v'')]\<rparr>"
  have "cstep f w s ?s'" using assms by (rule h_range)
  moreover have "ended ?s' = None \<and> hpc ?s' = HCaught sg" using assms by simp
  ultimately show ?thesis by blast
qed

lemma deliver_enabled:
  assumes "ended s = None" "hpc s = HRange" "sigc s = []"
  shows "\<exists>s'. cstep f w s s' \<and> ended s' = None \<and> hpc s' = HRange \<and> sigc s' = [sg]"
proof -
  let ?s' = "s\<lparr>sigc := [sg]\<rparr>"
  have "cstep f w s ?s'" using assms(1,3) by (rule deliver)
  moreover have "ended ?s' = None \<and> hpc ?s' = HRange \<and> sigc ?s' = [sg]" using assms by simp
  ultimately show ?thesis by blast
qed

lemma handler_can_finish:
  assumes "ended s = None"
  shows "\<exists>s'. (cstep f w)\<^sup>*\<^sup>* s s' \<and> ended s' = Some (SignalHandler, Exited 0)"
proof -
  have saved: "\<exists>s'. (cstep f w)\<^sup>*\<^sup>* t s' \<and> ended s' = Some (SignalHandler, Exited 0)"
    if "ended t = None" "hpc t = HSaved r" for t r
    using handler_exit_enabled [OF that, of f w] by blast
  have caught: "\<exists>s'. (cstep f w)\<^sup>*\<^sup>* t s' \<and> ended s' = Some (SignalHandler, Exited 0)"
    if "ended t = None" "hpc t = HCaught sg" for t sg
  proof -
    from handler_save_enabled [OF that, of f w None] obtain t' where
      "cstep f w t t'" "ended t' = None" "hpc t' = HSaved None" by blast
    with saved [of t' None] show ?thesis by (blast intro: converse_rtranclp_into_rtranclp)
  qed
  have pending: "\<exists>s'. (cstep f w)\<^sup>*\<^sup>* t s' \<and> ended s' = Some (SignalHandler, Exited 0)"
    if "ended t = None" "hpc t = HRange" "sigc t = sg # q" for t sg q
  proof -
    from handler_range_enabled [OF that, of f w] obtain t' where
      "cstep f w t t'" "ended t' = None" "hpc t' = HCaught sg" by blast
    with caught [of t' sg] show ?thesis by (blast intro: converse_rtranclp_into_rtranclp)
  qed
  show ?thesis
  proof (cases "hpc s")
    case HRange
    show ?thesis
    proof (cases "sigc s")
      case Nil
      from deliver_enabled [OF assms HRange Nil, of f w SIGTERM] obtain t where
        "cstep f w s t" "ended t = None" "hpc t = HRange" "sigc t = [SIGTERM]" by blast
      with pending [of t SIGTERM "[]"] show ?thesis
        by (blast intro: converse_rtranclp_into_rtranclp)
    next
      case (Cons sg q)
      with pending [OF assms HRange] show ?thesis by blast
    qed
  next
    case (HCaught sg)
    with caught [OF assms] show ?thesis by blast
  next
    case (HSaved r)
    with saved [OF assms] show ?thesis by blast
  qed
qed

text \<open>
  C5, for the runs the signal handler ends: in continuous mode the handler's own
  events are, at every moment, an initial part of: the log of the caught signal,
  the call of \<^verbatim>\<open>c.Save()\<close>, and the error log if that call failed. When the handler
  has ended the process, the status is 0 and the handler has called \<^verbatim>\<open>c.Save()\<close>
  after catching the signal, whether the call returned an error (which is then
  logged) or not: the handler never ends the process without having attempted the
  save. While the process runs, a signal can always be taken to that end, with
  either result of the call.
\<close>

theorem shutdown_saves_then_exits_0:
  "reachable f w s \<Longrightarrow>
     events_of SignalHandler s =
       (case hpc s of
          HRange \<Rightarrow> []
        | HCaught sg \<Rightarrow> [EInfo ''signal caught: %v'']
        | HSaved r \<Rightarrow> [EInfo ''signal caught: %v'', ESave] @
            (if ended s = Some (SignalHandler, Exited 0) then save_check r else [])) \<and>
     (\<forall>e. ended s = Some (SignalHandler, e) \<longrightarrow>
        e = Exited 0 \<and>
        (\<exists>r. hpc s = HSaved r \<and>
           events_of SignalHandler s = [EInfo ''signal caught: %v'', ESave] @ save_check r)) \<and>
     save_check None = [] \<and> (\<forall>err. save_check (Some err) = [EError ''save errro: %v'']) \<and>
     (ended s = None \<longrightarrow>
        (\<exists>s'. (cstep f w)\<^sup>*\<^sup>* s s' \<and> ended s' = Some (SignalHandler, Exited 0))) \<and>
     (ended s = None \<and> hpc s = HRange \<and> sigc s = [] \<longrightarrow>
        (\<forall>r. \<exists>s'. reachable f w s' \<and> ended s' = Some (SignalHandler, Exited 0) \<and>
           hpc s' = HSaved r))"
proof -
  assume r: "reachable f w s"
  note H = reachable_handler [OF r]
  have 1: "\<forall>e. ended s = Some (SignalHandler, e) \<longrightarrow>
        e = Exited 0 \<and>
        (\<exists>r. hpc s = HSaved r \<and>
           events_of SignalHandler s = [EInfo ''signal caught: %v'', ESave] @ save_check r)"
  proof (intro allI impI)
    fix e assume e: "ended s = Some (SignalHandler, e)"
    with H have x: "e = Exited 0" by blast
    from e H obtain r' where h: "hpc s = HSaved r'" by blast
    from H h e x have "events_of SignalHandler s =
        [EInfo ''signal caught: %v'', ESave] @ save_check r'" by simp
    with x h show "e = Exited 0 \<and>
        (\<exists>r. hpc s = HSaved r \<and>
           events_of SignalHandler s = [EInfo ''signal caught: %v'', ESave] @ save_check r)"
      by blast
  qed
  have 2: "\<forall>r'. \<exists>s'. reachable f w s' \<and> ended s' = Some (SignalHandler, Exited 0) \<and>
           hpc s' = HSaved r'" if c: "ended s = None" "hpc s = HRange" "sigc s = []"
  proof
    fix r'
    from signal_run [OF r c, of r'] show "\<exists>s'. reachable f w s' \<and>
        ended s' = Some (SignalHandler, Exited 0) \<and> hpc s' = HSaved r'"
      by (rule exI [where P = "\<lambda>s'. reachable f w s' \<and> _ s'", OF conjI]) simp_all
  qed
  have 3: "save_check None = [] \<and> (\<forall>err. save_check (Some err) = [EError ''save errro: %v''])"
    by (simp add: save_check_def)
  have 4: "ended s = None \<longrightarrow>
        (\<exists>s'. (cstep f w)\<^sup>*\<^sup>* s s' \<and> ended s' = Some (SignalHandler, Exited 0))"
    using handler_can_finish by blast
  from H 1 2 3 4 show ?thesis by blast
qed

theorem shutdown_saves_then_exits_0_witness:
  "reachable flags0 world0
     (state0\<lparr>sigc := [], hpc := HSaved (Some ''disk full''),
        events := events state0 @
          [(SignalHandler, EInfo ''signal caught: %v''), (SignalHandler, ESave)] @
          map (Pair SignalHandler) (save_check (Some ''disk full'')),
        ended := Some (SignalHandler, Exited 0)\<rparr>) \<and>
   events_of SignalHandler
     (state0\<lparr>sigc := [], hpc := HSaved (Some ''disk full''),
        events := events state0 @
          [(SignalHandler, EInfo ''signal caught: %v''), (SignalHandler, ESave)] @
          map (Pair SignalHandler) (save_check (Some ''disk full'')),
        ended := Some (SignalHandler, Exited 0)\<rparr>) =
     [EInfo ''signal caught: %v'', ESave, EError ''save errro: %v'']"
proof -
  let ?s = "state0\<lparr>sigc := [], hpc := HSaved (Some ''disk full''),
        events := events state0 @
          [(SignalHandler, EInfo ''signal caught: %v''), (SignalHandler, ESave)] @
          map (Pair SignalHandler) (save_check (Some ''disk full'')),
        ended := Some (SignalHandler, Exited 0)\<rparr>"
  have r: "reachable flags0 world0 ?s"
    by (rule signal_run [OF reachable_state0]) simp_all
  have e: "ended ?s = Some (SignalHandler, Exited 0)" by simp
  from shutdown_saves_then_exits_0 [OF r] e obtain r' where
    h: "hpc ?s = HSaved r'" and
    v: "events_of SignalHandler ?s = [EInfo ''signal caught: %v'', ESave] @ save_check r'"
    by blast
  from h have "r' = Some ''disk full''" by simp
  with v have "events_of SignalHandler ?s =
      [EInfo ''signal caught: %v'', ESave, EError ''save errro: %v'']"
    by (simp add: save_check_def)
  with r show ?thesis by blast
qed

text \<open>
  C5 does not hold of every received signal: the handler runs beside \<^verbatim>\<open>main\<close>, and
  \<^verbatim>\<open>main\<close> panics when \<^verbatim>\<open>ListenAndServe\<close> returns an error (line 176). In the run
  \<open>panicked0\<close> the handler has caught \<^verbatim>\<open>SIGTERM\<close>, it has not called \<^verbatim>\<open>c.Save()\<close>,
  and the process has ended by that panic, not with status 0.
\<close>

theorem signal_then_panic_counterexample:
  "reachable flags0 world0 panicked0 \<and>
   hpc panicked0 = HCaught SIGTERM \<and>
   events_of SignalHandler panicked0 = [EInfo ''signal caught: %v''] \<and>
   (SignalHandler, ESave) \<notin> set (events panicked0) \<and>
   ended panicked0 = Some (MainThread, Panicked ''bind: address already in use'')"
proof -
  let ?s1 = "state0\<lparr>sigc := [SIGTERM]\<rparr>"
  let ?s2 = "?s1\<lparr>sigc := [], hpc := HCaught SIGTERM,
                 events := events ?s1 @ [(SignalHandler, EInfo ''signal caught: %v'')]\<rparr>"
  let ?s3 = "?s2\<lparr>mpc := MServe (listenAddr flags0 world0),
                 events := events ?s2 @
                   map (Pair MainThread) (main_serve flags0 world0 (site ?s2))\<rparr>"
  let ?s4 = "?s3\<lparr>ended := Some (MainThread, Panicked ''bind: address already in use'')\<rparr>"
  have 1: "reachable flags0 world0 ?s1"
    using reachable_state0 by (rule r_step) (rule deliver, simp_all)
  have 2: "reachable flags0 world0 ?s2"
    using 1 by (rule r_step) (rule h_range, simp_all)
  have 3: "reachable flags0 world0 ?s3"
    using 2 by (rule serve_run) simp_all
  have 4: "reachable flags0 world0 ?s4"
    using 3 by (rule r_step) (rule m_panic [where a = "listenAddr flags0 world0"], simp_all)
  have p: "panicked0 = ?s4" by (simp add: panicked0_def Let_def)
  have h: "events_of SignalHandler ?s4 = [EInfo ''signal caught: %v'']"
    by (simp add: events_of_def state0_def init_cstate_def filter_map comp_def)
  have n: "(SignalHandler, ESave) \<notin> set (events ?s4)"
    by (auto simp: state0_def init_cstate_def)
  from 4 h n show ?thesis unfolding p by simp
qed

text \<open>
  C1: the goroutine of lines 149-153 tests \<^verbatim>\<open>err == nil\<close>. When \<^verbatim>\<open>Loop\<close> returns an
  error it logs nothing and does not end the process; \<^verbatim>\<open>klog.Exitf("loop failed")\<close>
  runs when \<^verbatim>\<open>Loop\<close> returns \<^verbatim>\<open>nil\<close>. So there is a run in which \<^verbatim>\<open>Loop\<close> has returned
  an error, its goroutine is over, and the process is still running and serving.
\<close>

theorem loop_error_is_ignored:
  "loop_check (Some err) = ([], None) \<and>
   loop_check None = ([EExit ''loop failed: %v''], Some (Exited 1)) \<and>
   (\<exists>s. reachable flags0 world0 s \<and> lpc s = LDone (Some err) \<and>
        mpc s = MServe '':8080'' \<and> ended s = None)"
proof -
  let ?s1 = "state0\<lparr>lpc := LReturned (Some err)\<rparr>"
  let ?s2 = "?s1\<lparr>lpc := LDone (Some err),
                 events := events ?s1 @ map (Pair LoopRunner) (fst (loop_check (Some err))),
                 ended := map_option (Pair LoopRunner) (snd (loop_check (Some err)))\<rparr>"
  let ?s3 = "?s2\<lparr>mpc := MServe (listenAddr flags0 world0),
                 events := events ?s2 @ map (Pair MainThread) (main_serve flags0 world0 (site ?s2))\<rparr>"
  have 1: "reachable flags0 world0 ?s1"
    using reachable_state0 by (rule r_step) (rule l_return, simp_all)
  have 2: "reachable flags0 world0 ?s2"
    using 1 by (rule r_step) (rule l_check, simp_all)
  have 3: "reachable flags0 world0 ?s3"
    using 2 by (rule serve_run) (simp_all add: loop_check_def)
  have "lpc ?s3 = LDone (Some err) \<and> mpc ?s3 = MServe '':8080'' \<and> ended ?s3 = None"
    by (simp add: loop_check_def listenAddr0)
  with 3 have "\<exists>s. reachable flags0 world0 s \<and> lpc s = LDone (Some err) \<and>
        mpc s = MServe '':8080'' \<and> ended s = None"
    by blast
  then show ?thesis by (simp add: loop_check_def)
qed

end
